theory Spec2Isabelle
  imports Complex_Main
begin

section \<open>The 1-D Ising chain of montecarlo.py\<close>

text \<open>
  The development follows \<^verbatim>\<open>src/montecarlo/montecarlo.py\<close>. Python floats are read as
  real numbers, the entries of the numpy array \<^verbatim>\<open>config\<close> (dtype int) as integers, and
  every exception the code can raise is a value of the type \<open>error\<close>.
\<close>

subsection \<open>Data\<close>

datatype error =
    IndexError
  | OverflowError
  | ValueError
  | EncodingRangeError
  | InvalidTemperatureError
  | SizeTooLargeError

text \<open>\<^verbatim>\<open>class SpinConfig1D\<close>: the attributes set by \<^verbatim>\<open>__init__\<close>.\<close>

record SpinConfig1D =
  config :: "int list"
  N :: int
  pbc :: bool

text \<open>\<^verbatim>\<open>class IsingHamiltonian1D\<close>: the attributes set by \<^verbatim>\<open>__init__\<close>.\<close>

record IsingHamiltonian1D =
  J :: real
  h :: "real list"
  mu :: real
  pbc :: bool

text \<open>
  Indexing a one-dimensional numpy array of length \<open>n\<close> with a Python integer \<open>i\<close>:
  the indices \<open>-n \<le> i < 0\<close> count from the end. An index outside \<open>[-n, n)\<close> raises
  IndexError, except for \<open>2^63 \<le> i < 2^64\<close>, which numpy reads as an unsigned 64-bit
  number and then fails to convert to its signed index type with OverflowError. An
  array has fewer than \<open>2^63\<close> entries, so such an index is never inside.
\<close>

definition np_index :: "'a list \<Rightarrow> int \<Rightarrow> error + nat" where
  "np_index xs i =
     (let n = int (length xs) in
      if 0 \<le> i \<and> i < n then Inr (nat i)
      else if - n \<le> i \<and> i < 0 then Inr (nat (n + i))
      else if 2 ^ 63 \<le> i \<and> i < 2 ^ 64 then Inl OverflowError
      else Inl IndexError)"

text \<open>
  Indexing a Python list of length \<open>n\<close>: the same, with IndexError for every index
  outside \<open>[-n, n)\<close>.
\<close>

definition list_index :: "'a list \<Rightarrow> int \<Rightarrow> error + nat" where
  "list_index xs i =
     (let n = int (length xs) in
      if 0 \<le> i \<and> i < n then Inr (nat i)
      else if - n \<le> i \<and> i < 0 then Inr (nat (n + i))
      else Inl IndexError)"

text \<open>\<^verbatim>\<open>range(n)\<close> for an integer \<open>n\<close>: empty when \<open>n \<le> 0\<close>.\<close>

definition py_range :: "int \<Rightarrow> int list" where
  "py_range n = map int [0..<nat n]"

subsection \<open>SpinConfig1D\<close>

text \<open>
  \<^verbatim>\<open>__init__(self, N, pbc)\<close>: \<^verbatim>\<open>np.zeros(N, dtype=int)\<close> raises ValueError on a negative
  dimension; nothing else is checked.
\<close>

definition SpinConfig1D_init :: "int \<Rightarrow> bool \<Rightarrow> error + SpinConfig1D" where
  "SpinConfig1D_init n p =
     (if n < 0 then Inl ValueError
      else Inr \<lparr>config = replicate (nat n) 0, N = n, pbc = p\<rparr>)"

text \<open>\<^verbatim>\<open>__getitem__(self, i)\<close>: \<^verbatim>\<open>return self.config[i]\<close>.\<close>

definition getitem :: "SpinConfig1D \<Rightarrow> int \<Rightarrow> error + int" where
  "getitem c i =
     (case np_index (config c) i of
        Inl e \<Rightarrow> Inl e
      | Inr k \<Rightarrow> Inr (config c ! k))"

text \<open>
  \<^verbatim>\<open>flip_site(self, i)\<close>: the read \<^verbatim>\<open>self.config[i] == 1\<close> raises before anything is
  written, so a failing call leaves the object as it was.
\<close>

definition flip_site :: "SpinConfig1D \<Rightarrow> int \<Rightarrow> error + SpinConfig1D" where
  "flip_site c i =
     (case np_index (config c) i of
        Inl e \<Rightarrow> Inl e
      | Inr k \<Rightarrow>
          if config c ! k = 1 then Inr (c\<lparr>config := (config c)[k := 0]\<rparr>)
          else Inr (c\<lparr>config := (config c)[k := 1]\<rparr>))"

text \<open>
  The invariant of the spec's data model: the array has length \<open>N\<close> and holds only
  0 and 1.
\<close>

definition spin_inv :: "SpinConfig1D \<Rightarrow> bool" where
  "spin_inv c \<longleftrightarrow> int (length (config c)) = N c \<and> list_all (\<lambda>s. s = 0 \<or> s = 1) (config c)"

subsection \<open>IsingHamiltonian1D\<close>

text \<open>
  The first loop of \<^verbatim>\<open>expectation_value\<close>, over the bonds \<open>(i, i+1)\<close>:
  \<^verbatim>\<open>if config[i] == config[i+1]: e -= self.J else: e += self.J\<close>.
\<close>

fun bond_loop :: "IsingHamiltonian1D \<Rightarrow> SpinConfig1D \<Rightarrow> int list \<Rightarrow> real \<Rightarrow> error + real" where
  "bond_loop ham c [] e = Inr e"
| "bond_loop ham c (i # js) e =
     (case getitem c i of
        Inl err \<Rightarrow> Inl err
      | Inr a \<Rightarrow>
         (case getitem c (i + 1) of
            Inl err \<Rightarrow> Inl err
          | Inr b \<Rightarrow> bond_loop ham c js (if a = b then e - J ham else e + J ham)))"

text \<open>
  The bond that closes the ring, taken when the Hamiltonian's own \<^verbatim>\<open>pbc\<close> is set:
  \<^verbatim>\<open>if config[config.N-1] == config[0]: e -= self.J else: e += self.J\<close>.
\<close>

definition wrap_bond :: "IsingHamiltonian1D \<Rightarrow> SpinConfig1D \<Rightarrow> real \<Rightarrow> error + real" where
  "wrap_bond ham c e =
     (if IsingHamiltonian1D.pbc ham then
        (case getitem c (N c - 1) of
           Inl err \<Rightarrow> Inl err
         | Inr a \<Rightarrow>
            (case getitem c 0 of
               Inl err \<Rightarrow> Inl err
             | Inr b \<Rightarrow> Inr (if a = b then e - J ham else e + J ham)))
      else Inr e)"

text \<open>
  The second loop, over the sites:
  \<^verbatim>\<open>if config[i]: e -= self.mu * self.h[i] else: e += self.mu * self.h[i]\<close>.
  A spin counts as up when it is not zero; \<^verbatim>\<open>self.h[i]\<close> reads the list \<^verbatim>\<open>h\<close> and
  raises IndexError when it is too short.
\<close>

fun field_loop :: "IsingHamiltonian1D \<Rightarrow> SpinConfig1D \<Rightarrow> int list \<Rightarrow> real \<Rightarrow> error + real" where
  "field_loop ham c [] e = Inr e"
| "field_loop ham c (i # js) e =
     (case getitem c i of
        Inl err \<Rightarrow> Inl err
      | Inr s \<Rightarrow>
         (case list_index (h ham) i of
            Inl err \<Rightarrow> Inl err
          | Inr k \<Rightarrow>
              field_loop ham c js
                (if s \<noteq> 0 then e - mu ham * (h ham ! k) else e + mu ham * (h ham ! k))))"

text \<open>\<^verbatim>\<open>expectation_value(self, config)\<close>, starting from \<^verbatim>\<open>e = 0.0\<close>.\<close>

definition expectation_value :: "IsingHamiltonian1D \<Rightarrow> SpinConfig1D \<Rightarrow> error + real" where
  "expectation_value ham c =
     (case bond_loop ham c (py_range (N c - 1)) 0 of
        Inl err \<Rightarrow> Inl err
      | Inr e1 \<Rightarrow>
         (case wrap_bond ham c e1 of
            Inl err \<Rightarrow> Inl err
          | Inr e2 \<Rightarrow> field_loop ham c (py_range (N c)) e2))"

subsection \<open>Objects and copies\<close>

text \<open>
  \<^verbatim>\<open>delta_e_for_flip\<close> works on a deep copy of the caller's object, so whether the caller
  sees a change depends on which object is written. Objects live in a heap, a list of
  \<^verbatim>\<open>SpinConfig1D\<close> values, and a reference is a position in it. \<^verbatim>\<open>copy.deepcopy\<close>
  allocates a new object with the same contents (the array included) at a fresh
  position.
\<close>

type_synonym ref = nat

type_synonym heap = "SpinConfig1D list"

definition deepcopy :: "heap \<Rightarrow> ref \<Rightarrow> ref \<times> heap" where
  "deepcopy hp r = (length hp, hp @ [hp ! r])"

text \<open>
  \<^verbatim>\<open>delta_e_for_flip(self, i, config)\<close>: \<^verbatim>\<open>config_trial = cp.deepcopy(config)\<close>,
  \<^verbatim>\<open>config_trial.flip_site(i)\<close>, and the returned pair
  \<^verbatim>\<open>(config_trial, expectation_value(config_trial) - expectation_value(config))\<close>.
  The result is the outcome of the call together with the heap it leaves.
\<close>

definition delta_e_for_flip ::
  "IsingHamiltonian1D \<Rightarrow> int \<Rightarrow> ref \<Rightarrow> heap \<Rightarrow> (error + ref \<times> real) \<times> heap" where
  "delta_e_for_flip ham i r hp =
     (case deepcopy hp r of (config_trial, hp1) \<Rightarrow>
        (case flip_site (hp1 ! config_trial) i of
           Inl err \<Rightarrow> (Inl err, hp1)
         | Inr flipped \<Rightarrow>
            (let hp2 = hp1[config_trial := flipped] in
             case expectation_value ham (hp2 ! config_trial) of
               Inl err \<Rightarrow> (Inl err, hp2)
             | Inr e_trial \<Rightarrow>
                (case expectation_value ham (hp2 ! r) of
                   Inl err \<Rightarrow> (Inl err, hp2)
                 | Inr e_config \<Rightarrow> (Inr (config_trial, e_trial - e_config), hp2)))))"

subsection \<open>The random source\<close>

text \<open>
  The module \<^verbatim>\<open>random\<close> is a shared generator. Its state is the sequence of raw draws
  still to come; a call consumes draws from the front. Nothing is assumed of the
  draws, so a statement for every sequence is a statement for every outcome of the
  generator.
\<close>

type_synonym rng = "nat \<Rightarrow> nat"

text \<open>\<^verbatim>\<open>randbelow(n)\<close>: a number below \<open>n\<close>, from one draw.\<close>

definition randbelow :: "nat \<Rightarrow> rng \<Rightarrow> nat \<times> rng" where
  "randbelow n g = (g 0 mod n, \<lambda>k. g (Suc k))"

text \<open>
  The selection loop of \<^verbatim>\<open>random.sample\<close> on a copy of the population:
  \<^verbatim>\<open>j = randbelow(n - i); result[i] = pool[j]; pool[j] = pool[n - i - 1]\<close>.
  The pool shrinks by its last entry after each pick.
\<close>

fun sample_loop :: "'a list \<Rightarrow> nat \<Rightarrow> rng \<Rightarrow> 'a list \<times> rng" where
  "sample_loop pool 0 g = ([], g)"
| "sample_loop pool (Suc k) g =
     (case randbelow (length pool) g of (j, g1) \<Rightarrow>
        (case sample_loop (take (length pool - 1) (pool[j := pool ! (length pool - 1)])) k g1 of
           (result, g2) \<Rightarrow> (pool ! j # result, g2)))"

text \<open>
  \<^verbatim>\<open>random.sample(population, k)\<close>: ValueError (``Sample larger than population or is
  negative'') unless \<open>0 \<le> k \<le> len(population)\<close>.
\<close>

definition random_sample :: "'a list \<Rightarrow> int \<Rightarrow> rng \<Rightarrow> error + 'a list \<times> rng" where
  "random_sample population k g =
     (if 0 \<le> k \<and> k \<le> int (length population)
      then Inr (sample_loop population (nat k) g)
      else Inl ValueError)"

subsection \<open>Initialising with a magnetisation\<close>

text \<open>\<^verbatim>\<open>for i in randomlist: self.config[i] = 1\<close>, stopping at the first bad index.\<close>

fun set_up_loop :: "int list \<Rightarrow> int list \<Rightarrow> error option \<times> int list" where
  "set_up_loop cfg [] = (None, cfg)"
| "set_up_loop cfg (i # js) =
     (case np_index cfg i of
        Inl err \<Rightarrow> (Some err, cfg)
      | Inr k \<Rightarrow> set_up_loop (cfg[k := 1]) js)"

text \<open>
  \<^verbatim>\<open>initialize(self, M)\<close>. The array is replaced by zeros before the sample is drawn,
  so the object is changed even when \<^verbatim>\<open>random.sample\<close> raises; the result is the
  outcome (\<open>None\<close> for a normal return), the object and the generator after the call.
  The sample is drawn from \<^verbatim>\<open>range(0, self.N-1)\<close>.
\<close>

definition initialize :: "SpinConfig1D \<Rightarrow> int \<Rightarrow> rng \<Rightarrow> error option \<times> SpinConfig1D \<times> rng" where
  "initialize c M g =
     (if N c < 0 then (Some ValueError, c, g)
      else
        (let c0 = c\<lparr>config := replicate (nat (N c)) 0\<rparr> in
         case random_sample (py_range (N c - 1)) M g of
           Inl err \<Rightarrow> (Some err, c0, g)
         | Inr (randomlist, g') \<Rightarrow>
            (case set_up_loop (config c0) randomlist of
               (outcome, cfg) \<Rightarrow> (outcome, c0\<lparr>config := cfg\<rparr>, g'))))"

subsection \<open>Setting a configuration from an integer\<close>

text \<open>
  Modelled from the spec: \<^verbatim>\<open>set_int_config\<close> (the spec's SetFromInteger) is called by
  the tests and is not defined in \<^verbatim>\<open>montecarlo.py\<close>. The spec asks for
  \<open>0 \<le> value < 2^N\<close>, failing with EncodingRangeError otherwise, and sets the spins to
  the binary expansion of the value, zero-padded to width \<open>N\<close>. The bit order the spec
  leaves open is fixed here as the order in which the expansion is written: site 0
  holds the most significant of the \<open>N\<close> bits.
\<close>

fun binary_digits :: "nat \<Rightarrow> int \<Rightarrow> int list" where
  "binary_digits 0 v = []"
| "binary_digits (Suc w) v = binary_digits w (v div 2) @ [v mod 2]"

definition set_int_config :: "SpinConfig1D \<Rightarrow> int \<Rightarrow> error + SpinConfig1D" where
  "set_int_config c v =
     (if 0 \<le> v \<and> v < 2 ^ nat (N c)
      then Inr (c\<lparr>config := binary_digits (nat (N c)) v\<rparr>)
      else Inl EncodingRangeError)"

text \<open>
  Reading the integer back: the sites are read with \<^verbatim>\<open>__getitem__\<close> from site 0 to
  site \<open>N - 1\<close>, each one the next lower bit.
\<close>

fun read_loop :: "SpinConfig1D \<Rightarrow> int list \<Rightarrow> int \<Rightarrow> error + int" where
  "read_loop c [] acc = Inr acc"
| "read_loop c (i # js) acc =
     (case getitem c i of
        Inl err \<Rightarrow> Inl err
      | Inr b \<Rightarrow> read_loop c js (2 * acc + b))"

definition read_back_integer :: "SpinConfig1D \<Rightarrow> error + int" where
  "read_back_integer c = read_loop c (py_range (N c)) 0"

subsection \<open>The Metropolis sweep\<close>

text \<open>
  \<^verbatim>\<open>random.random()\<close>: a float in \<open>[0, 1)\<close> with 53 random bits, from one draw.
\<close>

definition uniform_of_draw :: "nat \<Rightarrow> real" where
  "uniform_of_draw d = real (d mod 2 ^ 53) / 2 ^ 53"

definition random_uniform :: "rng \<Rightarrow> real \<times> rng" where
  "random_uniform g = (uniform_of_draw (g 0), \<lambda>k. g (Suc k))"

text \<open>
  Modelled from the spec: \<^verbatim>\<open>metropolis_sweep\<close> (the spec's MetropolisSweep) is called
  by the tests and is not defined in \<^verbatim>\<open>montecarlo.py\<close>. Following the spec, the sites
  are visited in the order \<open>0, \<dots>, N - 1\<close>; at each site the flip delta is taken from
  \<^verbatim>\<open>delta_e_for_flip\<close> (the source's function, which returns it next to a trial copy),
  one uniform number \<open>u\<close> is drawn, and the caller's configuration is flipped at the
  site with \<^verbatim>\<open>flip_site\<close> when \<open>\<Delta>E \<le> 0\<close> or \<open>u < exp(-\<Delta>E / T)\<close>. A temperature
  \<open>T \<le> 0\<close> fails with InvalidTemperatureError before anything is done. The caller's
  configuration is the object \<open>r\<close> of the heap.
\<close>

fun sweep_loop ::
  "IsingHamiltonian1D \<Rightarrow> real \<Rightarrow> ref \<Rightarrow> int list \<Rightarrow> heap \<Rightarrow> rng \<Rightarrow> error option \<times> heap \<times> rng" where
  "sweep_loop ham T r [] hp g = (None, hp, g)"
| "sweep_loop ham T r (i # js) hp g =
     (case delta_e_for_flip ham i r hp of
        (Inl err, hp1) \<Rightarrow> (Some err, hp1, g)
      | (Inr (config_trial, delta), hp1) \<Rightarrow>
         (case random_uniform g of (u, g1) \<Rightarrow>
            if delta \<le> 0 \<or> u < exp (- delta / T) then
              (case flip_site (hp1 ! r) i of
                 Inl err \<Rightarrow> (Some err, hp1, g1)
               | Inr flipped \<Rightarrow> sweep_loop ham T r js (hp1[r := flipped]) g1)
            else sweep_loop ham T r js hp1 g1))"

definition metropolis_sweep ::
  "IsingHamiltonian1D \<Rightarrow> ref \<Rightarrow> real \<Rightarrow> heap \<Rightarrow> rng \<Rightarrow> error option \<times> heap \<times> rng" where
  "metropolis_sweep ham r T hp g =
     (if T \<le> 0 then (Some InvalidTemperatureError, hp, g)
      else sweep_loop ham T r (py_range (N (hp ! r))) hp g)"

text \<open>
  The acceptance rule in the spec's words, for one visit of site \<open>i\<close> with the uniform
  number \<open>u\<close>: \<open>c'\<close> is \<open>c\<close> flipped at \<open>i\<close> if the energy change \<open>\<Delta>E\<close> of that flip
  satisfies \<open>\<Delta>E \<le> 0\<close> or \<open>u < exp(-\<Delta>E / T)\<close>, and \<open>c\<close> itself otherwise.
\<close>

definition metropolis_rule ::
  "IsingHamiltonian1D \<Rightarrow> real \<Rightarrow> real \<Rightarrow> SpinConfig1D \<Rightarrow> int \<Rightarrow> SpinConfig1D \<Rightarrow> bool" where
  "metropolis_rule ham T u c i c' \<longleftrightarrow>
     (\<exists>flipped e_flipped e_config.
        flip_site c i = Inr flipped
      \<and> expectation_value ham flipped = Inr e_flipped
      \<and> expectation_value ham c = Inr e_config
      \<and> c' = (if e_flipped - e_config \<le> 0 \<or> u < exp (- (e_flipped - e_config) / T)
              then flipped else c))"

subsection \<open>Exact averages\<close>

text \<open>
  The magnetisation of a microstate in the spec's words: the signed sum over the
  sites, up as \<open>+1\<close> and down as \<open>-1\<close>, not divided by \<open>N\<close>.
\<close>

definition magnetization :: "SpinConfig1D \<Rightarrow> real" where
  "magnetization c = (\<Sum>s\<leftarrow>config c. if s \<noteq> 0 then 1 else - 1)"

text \<open>
  Modelled from the spec: \<^verbatim>\<open>compute_average_values\<close> (the spec's
  ComputeAverageValues) is called by the tests and is not defined in
  \<^verbatim>\<open>montecarlo.py\<close>. Following the spec, the integers \<open>0, \<dots>, 2^N - 1\<close> are
  enumerated, each one set with \<^verbatim>\<open>set_int_config\<close> and scored with the source's
  \<^verbatim>\<open>expectation_value\<close>; the loop accumulates the Boltzmann weight \<open>exp(-E / T)\<close> and
  the weighted sums of \<open>E\<close>, \<open>E\<^sup>2\<close>, \<open>M\<close> and \<open>M\<^sup>2\<close>. A temperature \<open>T \<le> 0\<close> fails with
  InvalidTemperatureError before anything else is looked at, and \<open>2^N\<close> above the
  enumeration budget fails with SizeTooLargeError. The budget, which the spec calls
  configured, is a parameter.
\<close>

fun average_loop ::
  "IsingHamiltonian1D \<Rightarrow> real \<Rightarrow> SpinConfig1D \<Rightarrow> int list
     \<Rightarrow> real \<times> real \<times> real \<times> real \<times> real \<Rightarrow> error + real \<times> real \<times> real \<times> real \<times> real" where
  "average_loop ham T c [] acc = Inr acc"
| "average_loop ham T c (s # ss) (Z, E, EE, M, MM) =
     (case set_int_config c s of
        Inl err \<Rightarrow> Inl err
      | Inr cs \<Rightarrow>
         (case expectation_value ham cs of
            Inl err \<Rightarrow> Inl err
          | Inr Es \<Rightarrow>
             (let Ms = magnetization cs; w = exp (- Es / T) in
              average_loop ham T cs ss
                (Z + w, E + w * Es, EE + w * Es * Es, M + w * Ms, MM + w * Ms * Ms))))"

definition compute_average_values ::
  "nat \<Rightarrow> int \<Rightarrow> IsingHamiltonian1D \<Rightarrow> real \<Rightarrow> error + real \<times> real \<times> real \<times> real" where
  "compute_average_values budget n ham T =
     (if T \<le> 0 then Inl InvalidTemperatureError
      else if int budget < 2 ^ nat n then Inl SizeTooLargeError
      else
        (case SpinConfig1D_init n (IsingHamiltonian1D.pbc ham) of
           Inl err \<Rightarrow> Inl err
         | Inr c \<Rightarrow>
            (case average_loop ham T c (py_range (2 ^ nat n)) (0, 0, 0, 0, 0) of
               Inl err \<Rightarrow> Inl err
             | Inr (Z, E, EE, M, MM) \<Rightarrow>
                 Inr (E / Z, M / Z,
                      (EE / Z - (E / Z) * (E / Z)) / (T * T),
                      (MM / Z - (M / Z) * (M / Z)) / T))))"

subsection \<open>Indexing facts\<close>

lemma np_index_inside:
  "0 \<le> i \<Longrightarrow> i < int (length xs) \<Longrightarrow> np_index xs i = Inr (nat i)"
  by (simp add: np_index_def)

lemma np_index_negative:
  "- int (length xs) \<le> i \<Longrightarrow> i < 0 \<Longrightarrow> np_index xs i = Inr (nat (int (length xs) + i))"
  by (simp add: np_index_def)

lemma np_index_outside:
  assumes "i < - int (length xs) \<or> int (length xs) \<le> i"
    and "i < 2 ^ 63 \<or> 2 ^ 64 \<le> i"
  shows "np_index xs i = Inl IndexError"
  using assms by (auto simp: np_index_def)

lemma np_index_overflow:
  assumes "int (length xs) \<le> i" and "2 ^ 63 \<le> i" and "i < 2 ^ 64"
  shows "np_index xs i = Inl OverflowError"
  using assms by (auto simp: np_index_def)

lemma list_index_inside:
  "0 \<le> i \<Longrightarrow> i < int (length xs) \<Longrightarrow> list_index xs i = Inr (nat i)"
  by (simp add: list_index_def)

lemma np_index_bound: "np_index xs i = Inr k \<Longrightarrow> k < length xs"
  by (auto simp: np_index_def Let_def split: if_splits)

lemma spin_inv_nth:
  "spin_inv c \<Longrightarrow> k < length (config c) \<Longrightarrow> config c ! k = 0 \<or> config c ! k = 1"
  by (simp add: spin_inv_def list_all_length)

lemma flip_site_inside:
  assumes "0 \<le> i" and "i < int (length (config c))"
  shows "flip_site c i =
           Inr (c\<lparr>config := (config c)[nat i := (if config c ! nat i = 1 then 0 else 1)]\<rparr>)"
  using assms by (simp add: flip_site_def np_index_inside)

subsection \<open>Flipping a site\<close>

text \<open>
  Claim C9. For a configuration with spins in {0,1} and a site index \<open>0 \<le> i < N\<close>,
  \<^verbatim>\<open>flip_site(i)\<close> succeeds, and a second \<^verbatim>\<open>flip_site(i)\<close> on its result succeeds and
  gives back the configuration the first call started from: the spin at site \<open>i\<close> is
  restored and every other site is untouched.
\<close>

theorem flip_site_involution:
  assumes "spin_inv c" and "0 \<le> i" and "i < N c"
  shows "\<exists>c'. flip_site c i = Inr c' \<and> flip_site c' i = Inr c
           \<and> config c' ! nat i \<noteq> config c ! nat i
           \<and> (\<forall>k. k \<noteq> nat i \<longrightarrow> config c' ! k = config c ! k)"
proof -
  let ?k = "nat i"
  let ?c' = "c\<lparr>config := (config c)[?k := (if config c ! ?k = 1 then 0 else 1)]\<rparr>"
  from assms have len: "i < int (length (config c))"
    by (simp add: spin_inv_def)
  then have k: "?k < length (config c)"
    using assms(2) by linarith
  have first: "flip_site c i = Inr ?c'"
    using assms(2) len by (rule flip_site_inside)
  have bit: "config c ! ?k = 0 \<or> config c ! ?k = 1"
    using assms(1) k by (rule spin_inv_nth)
  have restore: "(config ?c')[?k := (if config ?c' ! ?k = 1 then 0 else 1)] = config c"
    using bit k by (auto simp: list_update_same_conv)
  have "flip_site ?c' i = Inr (?c'\<lparr>config := (config ?c')[?k := (if config ?c' ! ?k = 1 then 0 else 1)]\<rparr>)"
    using assms(2) len by (intro flip_site_inside) simp_all
  also have "\<dots> = Inr c"
    unfolding restore by simp
  finally have second: "flip_site ?c' i = Inr c" .
  have differs: "config ?c' ! ?k \<noteq> config c ! ?k"
    using bit k by auto
  have others: "\<forall>j. j \<noteq> ?k \<longrightarrow> config ?c' ! j = config c ! j"
    by simp
  from first second differs others show ?thesis
    by blast
qed

theorem flip_site_involution_witness:
  "\<exists>c'. flip_site \<lparr>config = [1, 0, 1], N = 3, pbc = True\<rparr> 1 = Inr c'
      \<and> flip_site c' 1 = Inr \<lparr>config = [1, 0, 1], N = 3, pbc = True\<rparr>
      \<and> config c' ! nat 1 \<noteq> config \<lparr>config = [1, 0, 1], N = 3, pbc = True\<rparr> ! nat 1
      \<and> (\<forall>k. k \<noteq> nat 1 \<longrightarrow> config c' ! k = config \<lparr>config = [1, 0, 1], N = 3, pbc = True\<rparr> ! k)"
  using flip_site_involution [of "\<lparr>config = [1, 0, 1], N = 3, pbc = True\<rparr>" 1]
  by (simp add: spin_inv_def)

text \<open>
  Claim C7, as the code has it. On a configuration whose array has length \<open>N\<close> and
  holds 0 and 1, \<^verbatim>\<open>__getitem__(i)\<close> and \<^verbatim>\<open>flip_site(i)\<close> raise IndexError for every index
  outside \<open>[-N, N)\<close> that fits a signed 64-bit integer, \<open>-2^63 \<le> i < 2^63\<close>, and
  OverflowError for the indices \<open>2^63 \<le> i < 2^64\<close> beyond the array. For
  \<open>0 \<le> i < N\<close> the first returns the spin at site \<open>i\<close> and the second toggles it
  between 0 and 1. For \<open>-N \<le> i < 0\<close> neither fails: both act on site \<open>N + i\<close>, as
  numpy indexing counts negative indices from the end.
\<close>

theorem getitem_flip_site_index:
  assumes "spin_inv c"
  shows "((i < - N c \<or> N c \<le> i) \<and> - (2 ^ 63) \<le> i \<and> i < 2 ^ 63 \<longrightarrow>
            getitem c i = Inl IndexError \<and> flip_site c i = Inl IndexError)
       \<and> (N c \<le> i \<and> 2 ^ 63 \<le> i \<and> i < 2 ^ 64 \<longrightarrow>
            getitem c i = Inl OverflowError \<and> flip_site c i = Inl OverflowError)
       \<and> (0 \<le> i \<and> i < N c \<longrightarrow>
            getitem c i = Inr (config c ! nat i)
          \<and> flip_site c i = Inr (c\<lparr>config := (config c)[nat i := 1 - config c ! nat i]\<rparr>))
       \<and> (- N c \<le> i \<and> i < 0 \<longrightarrow>
            getitem c i = Inr (config c ! nat (N c + i))
          \<and> flip_site c i =
              Inr (c\<lparr>config := (config c)[nat (N c + i) := 1 - config c ! nat (N c + i)]\<rparr>))"
proof -
  from assms have len: "int (length (config c)) = N c"
    by (simp add: spin_inv_def)
  have toggle: "(if config c ! k = 1 then Inr (c\<lparr>config := (config c)[k := 0]\<rparr>)
                 else Inr (c\<lparr>config := (config c)[k := 1]\<rparr>))
              = (Inr (c\<lparr>config := (config c)[k := 1 - config c ! k]\<rparr>) :: error + SpinConfig1D)"
    if "k < length (config c)" for k
    using spin_inv_nth [OF assms that] by auto
  have outside: "getitem c i = Inl IndexError \<and> flip_site c i = Inl IndexError"
    if "(i < - N c \<or> N c \<le> i) \<and> - (2 ^ 63) \<le> i \<and> i < 2 ^ 63"
  proof -
    from that len have "np_index (config c) i = Inl IndexError"
      by (intro np_index_outside) simp_all
    then show ?thesis
      by (simp add: getitem_def flip_site_def)
  qed
  have overflow: "getitem c i = Inl OverflowError \<and> flip_site c i = Inl OverflowError"
    if "N c \<le> i \<and> 2 ^ 63 \<le> i \<and> i < 2 ^ 64"
  proof -
    from that len have "np_index (config c) i = Inl OverflowError"
      by (intro np_index_overflow) simp_all
    then show ?thesis
      by (simp add: getitem_def flip_site_def)
  qed
  have inside: "getitem c i = Inr (config c ! nat i)
      \<and> flip_site c i = Inr (c\<lparr>config := (config c)[nat i := 1 - config c ! nat i]\<rparr>)"
    if "0 \<le> i \<and> i < N c"
  proof -
    from that len have idx: "np_index (config c) i = Inr (nat i)"
      by (simp add: np_index_inside)
    from that len have "nat i < length (config c)"
      by linarith
    then show ?thesis
      using idx toggle [of "nat i"] by (simp add: getitem_def flip_site_def)
  qed
  have negative: "getitem c i = Inr (config c ! nat (N c + i))
      \<and> flip_site c i =
          Inr (c\<lparr>config := (config c)[nat (N c + i) := 1 - config c ! nat (N c + i)]\<rparr>)"
    if "- N c \<le> i \<and> i < 0"
  proof -
    from that len have idx: "np_index (config c) i = Inr (nat (N c + i))"
      using np_index_negative [of "config c" i] by simp
    from that len have "nat (N c + i) < length (config c)"
      by linarith
    then show ?thesis
      using idx toggle [of "nat (N c + i)"] by (simp add: getitem_def flip_site_def)
  qed
  from outside overflow inside negative show ?thesis
    by blast
qed

theorem getitem_flip_site_index_witness:
  "getitem \<lparr>config = [1, 0, 1], N = 3, pbc = True\<rparr> 3 = Inl IndexError
   \<and> flip_site \<lparr>config = [1, 0, 1], N = 3, pbc = True\<rparr> (- 4) = Inl IndexError
   \<and> getitem \<lparr>config = [1, 0, 1], N = 3, pbc = True\<rparr> 9223372036854775808 = Inl OverflowError
   \<and> flip_site \<lparr>config = [1, 0, 1], N = 3, pbc = True\<rparr> 9223372036854775808 = Inl OverflowError
   \<and> getitem \<lparr>config = [1, 0, 1], N = 3, pbc = True\<rparr> 1 = Inr 0
   \<and> flip_site \<lparr>config = [1, 0, 1], N = 3, pbc = True\<rparr> 1
        = Inr \<lparr>config = [1, 1, 1], N = 3, pbc = True\<rparr>
   \<and> getitem \<lparr>config = [1, 0, 1], N = 3, pbc = True\<rparr> (- 1) = Inr 1
   \<and> flip_site \<lparr>config = [1, 0, 1], N = 3, pbc = True\<rparr> (- 1)
        = Inr \<lparr>config = [1, 0, 0], N = 3, pbc = True\<rparr>"
  using getitem_flip_site_index [of "\<lparr>config = [1, 0, 1], N = 3, pbc = True\<rparr>" 3]
    getitem_flip_site_index [of "\<lparr>config = [1, 0, 1], N = 3, pbc = True\<rparr>" "- 4"]
    getitem_flip_site_index [of "\<lparr>config = [1, 0, 1], N = 3, pbc = True\<rparr>" 9223372036854775808]
    getitem_flip_site_index [of "\<lparr>config = [1, 0, 1], N = 3, pbc = True\<rparr>" 1]
    getitem_flip_site_index [of "\<lparr>config = [1, 0, 1], N = 3, pbc = True\<rparr>" "- 1"]
  by (simp add: spin_inv_def)

text \<open>
  The claim as the spec words it fails at a negative index: on the three-site
  configuration 1, 0, 1 the index \<open>-1\<close> reads the last site and flips it.
\<close>

theorem negative_index_counterexample:
  "getitem \<lparr>config = [1, 0, 1], N = 3, pbc = True\<rparr> (- 1) \<noteq> Inl IndexError
   \<and> flip_site \<lparr>config = [1, 0, 1], N = 3, pbc = True\<rparr> (- 1) \<noteq> Inl IndexError"
  by (simp add: getitem_def flip_site_def np_index_def)

subsection \<open>The energy\<close>

lemma getitem_inside:
  "k < length (config c) \<Longrightarrow> getitem c (int k) = Inr (config c ! k)"
  by (simp add: getitem_def np_index_inside)

lemma bond_loop_upt:
  assumes "b < length (config c)"
  shows "bond_loop ham c (map int [a..<b]) e =
           Inr (e + (\<Sum>i = a..<b. if config c ! i = config c ! Suc i then - J ham else J ham))"
  using assms
proof (induction "b - a" arbitrary: a e)
  case 0
  then show ?case by simp
next
  case (Suc d)
  then have ab: "a < b" and rest: "d = b - Suc a"
    by linarith+
  have here: "getitem c (int a) = Inr (config c ! a)"
    and there: "getitem c (int a + 1) = Inr (config c ! Suc a)"
    using ab Suc.prems getitem_inside [of a c] getitem_inside [of "Suc a" c]
    by (simp_all add: add.commute)
  have "bond_loop ham c (map int [a..<b]) e =
          bond_loop ham c (map int [Suc a..<b])
            (if config c ! a = config c ! Suc a then e - J ham else e + J ham)"
    using ab here there by (simp add: upt_conv_Cons)
  also have "\<dots> = Inr ((if config c ! a = config c ! Suc a then e - J ham else e + J ham)
      + (\<Sum>i = Suc a..<b. if config c ! i = config c ! Suc i then - J ham else J ham))"
    using Suc.hyps(1) [OF rest Suc.prems] .
  also have "\<dots> = Inr (e + (\<Sum>i = a..<b. if config c ! i = config c ! Suc i then - J ham else J ham))"
    using ab by (simp add: sum.atLeast_Suc_lessThan)
  finally show ?case .
qed

lemma field_loop_upt:
  assumes "b \<le> length (config c)" and "b \<le> length (h ham)"
  shows "field_loop ham c (map int [a..<b]) e =
           Inr (e + (\<Sum>i = a..<b. if config c ! i \<noteq> 0 then - (mu ham * h ham ! i)
                                  else mu ham * h ham ! i))"
  using assms
proof (induction "b - a" arbitrary: a e)
  case 0
  then show ?case by simp
next
  case (Suc d)
  then have ab: "a < b" and rest: "d = b - Suc a"
    by linarith+
  have spin: "getitem c (int a) = Inr (config c ! a)"
    using ab Suc.prems by (simp add: getitem_inside)
  have fld: "list_index (h ham) (int a) = Inr a"
    using ab Suc.prems by (simp add: list_index_inside)
  have "field_loop ham c (map int [a..<b]) e =
          field_loop ham c (map int [Suc a..<b])
            (if config c ! a \<noteq> 0 then e - mu ham * h ham ! a else e + mu ham * h ham ! a)"
    using ab spin fld by (simp add: upt_conv_Cons)
  also have "\<dots> = Inr ((if config c ! a \<noteq> 0 then e - mu ham * h ham ! a else e + mu ham * h ham ! a)
      + (\<Sum>i = Suc a..<b. if config c ! i \<noteq> 0 then - (mu ham * h ham ! i) else mu ham * h ham ! i))"
    using Suc.hyps(1) [OF rest Suc.prems] .
  also have "\<dots> = Inr (e + (\<Sum>i = a..<b. if config c ! i \<noteq> 0 then - (mu ham * h ham ! i)
                                  else mu ham * h ham ! i))"
    using ab by (simp add: sum.atLeast_Suc_lessThan)
  finally show ?case .
qed

lemma wrap_bond_value:
  assumes "int (length (config c)) = N c" and "1 \<le> N c"
  shows "wrap_bond ham c e =
           Inr (e + (if IsingHamiltonian1D.pbc ham
                     then (if config c ! (length (config c) - 1) = config c ! 0 then - J ham else J ham)
                     else 0))"
proof -
  from assms have pos: "0 < length (config c)"
    by linarith
  from assms have eq: "N c - 1 = int (length (config c) - 1)"
    by linarith
  have last: "getitem c (N c - 1) = Inr (config c ! (length (config c) - 1))"
    unfolding eq using pos by (intro getitem_inside) simp
  have first: "getitem c 0 = Inr (config c ! 0)"
    using pos getitem_inside [of 0 c] by simp
  show ?thesis
    by (simp add: wrap_bond_def last first)
qed

text \<open>
  The energy of a configuration in closed form, for any array of integer spins whose
  length is \<open>N \<ge> 1\<close> and any field list of at least \<open>N\<close> entries.
\<close>

lemma expectation_value_closed:
  assumes "int (length (config c)) = N c" and "1 \<le> N c" and "N c \<le> int (length (h ham))"
  shows "expectation_value ham c =
     Inr ((\<Sum>i = 0..<length (config c) - 1.
             if config c ! i = config c ! Suc i then - J ham else J ham)
        + (if IsingHamiltonian1D.pbc ham
           then (if config c ! (length (config c) - 1) = config c ! 0 then - J ham else J ham)
           else 0)
        + (\<Sum>i = 0..<length (config c).
             if config c ! i \<noteq> 0 then - (mu ham * h ham ! i) else mu ham * h ham ! i))"
proof -
  let ?n = "length (config c)"
  from assms have n: "nat (N c) = ?n" and n1: "nat (N c - 1) = ?n - 1" and pos: "0 < ?n"
    by linarith+
  have bonds: "bond_loop ham c (py_range (N c - 1)) 0 =
      Inr (0 + (\<Sum>i = 0..<?n - 1. if config c ! i = config c ! Suc i then - J ham else J ham))"
    unfolding py_range_def n1 using pos by (intro bond_loop_upt) simp
  have fields: "field_loop ham c (py_range (N c)) e =
      Inr (e + (\<Sum>i = 0..<?n. if config c ! i \<noteq> 0 then - (mu ham * h ham ! i)
                              else mu ham * h ham ! i))" for e
    unfolding py_range_def n using assms by (intro field_loop_upt) simp_all
  show ?thesis
    unfolding expectation_value_def bonds
    by (simp add: wrap_bond_value [OF assms(1,2)] fields)
qed

text \<open>
  The bound \<open>N \<ge> 1\<close> is needed: on an empty chain with \<^verbatim>\<open>pbc\<close> set, the read
  \<^verbatim>\<open>config[config.N-1]\<close> raises IndexError.
\<close>

lemma expectation_value_empty_ring:
  assumes "config c = []" and "N c = 0" and "IsingHamiltonian1D.pbc ham"
  shows "expectation_value ham c = Inl IndexError"
  using assms
  by (simp add: expectation_value_def py_range_def wrap_bond_def getitem_def np_index_def)

text \<open>
  Claim C1. For a configuration of length \<open>N \<ge> 1\<close> with spins in {0,1} and a field
  list \<open>h\<close> with an entry for every site, \<^verbatim>\<open>expectation_value\<close> returns the bond term
  (\<open>-J\<close> for each pair \<open>(i, i+1)\<close>, \<open>0 \<le> i \<le> N-2\<close>, of equal spins and \<open>+J\<close> for each
  pair of different spins, and the same for the pair \<open>(N-1, 0)\<close> exactly when the
  Hamiltonian's \<open>pbc\<close> is set) plus the field term (\<open>-mu * h[i]\<close> for a site that is
  up, \<open>+mu * h[i]\<close> for a site that is down), and divides by nothing.
\<close>

theorem expectation_value_bond_field:
  assumes "spin_inv c" and "1 \<le> N c" and "N c \<le> int (length (h ham))"
  shows "expectation_value ham c =
     Inr ((\<Sum>i = 0..<nat (N c) - 1.
             if config c ! i = config c ! Suc i then - J ham else J ham)
        + (if IsingHamiltonian1D.pbc ham
           then (if config c ! (nat (N c) - 1) = config c ! 0 then - J ham else J ham)
           else 0)
        + (\<Sum>i = 0..<nat (N c).
             if config c ! i = 1 then - (mu ham * h ham ! i) else mu ham * h ham ! i))"
proof -
  from assms(1) have len: "int (length (config c)) = N c"
    by (simp add: spin_inv_def)
  then have n: "nat (N c) = length (config c)"
    by linarith
  have up: "(config c ! i \<noteq> 0) = (config c ! i = 1)" if "i < length (config c)" for i
    using spin_inv_nth [OF assms(1) that] by auto
  have "(\<Sum>i = 0..<length (config c).
           if config c ! i \<noteq> 0 then - (mu ham * h ham ! i) else mu ham * h ham ! i)
      = (\<Sum>i = 0..<length (config c).
           if config c ! i = 1 then - (mu ham * h ham ! i) else mu ham * h ham ! i)"
    by (rule sum.cong) (simp_all add: up)
  then show ?thesis
    unfolding n using expectation_value_closed [OF len assms(2,3)] by simp
qed

theorem expectation_value_bond_field_witness:
  "expectation_value \<lparr>J = 2, h = [1, 3, 5], mu = 10, pbc = True\<rparr>
      \<lparr>config = [1, 0, 0], N = 3, pbc = True\<rparr> = Inr 72"
  using expectation_value_bond_field
    [of "\<lparr>config = [1, 0, 0], N = 3, pbc = True\<rparr>" "\<lparr>J = 2, h = [1, 3, 5], mu = 10, pbc = True\<rparr>"]
  by (simp add: spin_inv_def eval_nat_numeral)

subsection \<open>The energy change of a flip\<close>

text \<open>Whatever the call does, the objects the caller could already reach keep their contents.\<close>

lemma delta_e_for_flip_frame:
  assumes "q < length hp"
  shows "snd (delta_e_for_flip ham i r hp) ! q = hp ! q"
  using assms
  by (auto simp: delta_e_for_flip_def deepcopy_def Let_def nth_append split: sum.splits)

lemma flip_site_length:
  "flip_site c i = Inr c' \<Longrightarrow> length (config c') = length (config c) \<and> N c' = N c"
  by (auto simp: flip_site_def split: sum.splits if_splits)

lemma delta_e_for_flip_result:
  assumes "r < length hp"
    and "int (length (config (hp ! r))) = N (hp ! r)"
    and "0 \<le> i" and "i < N (hp ! r)"
    and "N (hp ! r) \<le> int (length (h ham))"
  shows "\<exists>flipped e_trial e_config.
           flip_site (hp ! r) i = Inr flipped
         \<and> expectation_value ham flipped = Inr e_trial
         \<and> expectation_value ham (hp ! r) = Inr e_config
         \<and> delta_e_for_flip ham i r hp =
             (Inr (length hp, e_trial - e_config), (hp @ [hp ! r])[length hp := flipped])"
proof -
  let ?c = "hp ! r"
  from assms have inside: "i < int (length (config ?c))"
    by simp
  obtain flipped where flipped: "flip_site ?c i = Inr flipped"
    using flip_site_inside [OF assms(3) inside] by blast
  then have shape: "int (length (config flipped)) = N flipped" and same_N: "N flipped = N ?c"
    using flip_site_length [of ?c i flipped] assms(2) by simp_all
  from assms have pos: "1 \<le> N ?c"
    by linarith
  obtain e_trial where e_trial: "expectation_value ham flipped = Inr e_trial"
    using expectation_value_closed [of flipped ham] shape same_N pos assms(5) by simp
  obtain e_config where e_config: "expectation_value ham ?c = Inr e_config"
    using expectation_value_closed [OF assms(2) pos assms(5)] by blast
  have "delta_e_for_flip ham i r hp =
          (Inr (length hp, e_trial - e_config), (hp @ [?c])[length hp := flipped])"
    using assms(1) flipped e_trial e_config
    by (simp add: delta_e_for_flip_def deepcopy_def nth_append)
  with flipped e_trial e_config show ?thesis
    by blast
qed

text \<open>
  Claim C2. For a configuration object \<open>r\<close> of length \<open>N\<close>, a valid site index
  \<open>0 \<le> i < N\<close> and a field list with an entry per site, \<^verbatim>\<open>delta_e_for_flip(i, config)\<close>
  returns normally; the number it returns (the second component of the returned pair,
  next to the trial object) is the energy of the configuration with site \<open>i\<close> flipped
  minus the energy of the caller's configuration; the flip is made on a new object,
  and every object that existed before the call, the caller's configuration among
  them, has the same contents after it.
\<close>

theorem delta_e_for_flip_energy_change:
  assumes "r < length hp"
    and "int (length (config (hp ! r))) = N (hp ! r)"
    and "0 \<le> i" and "i < N (hp ! r)"
    and "N (hp ! r) \<le> int (length (h ham))"
  shows "\<exists>config_trial delta hp' flipped e_trial e_config.
           delta_e_for_flip ham i r hp = (Inr (config_trial, delta), hp')
         \<and> flip_site (hp ! r) i = Inr flipped
         \<and> expectation_value ham flipped = Inr e_trial
         \<and> expectation_value ham (hp ! r) = Inr e_config
         \<and> delta = e_trial - e_config
         \<and> config_trial \<noteq> r \<and> hp' ! config_trial = flipped
         \<and> hp' ! r = hp ! r
         \<and> (\<forall>q. q < length hp \<longrightarrow> hp' ! q = hp ! q)"
proof -
  from delta_e_for_flip_result [OF assms] obtain flipped e_trial e_config where
    flipped: "flip_site (hp ! r) i = Inr flipped"
    and e_trial: "expectation_value ham flipped = Inr e_trial"
    and e_config: "expectation_value ham (hp ! r) = Inr e_config"
    and call: "delta_e_for_flip ham i r hp =
        (Inr (length hp, e_trial - e_config), (hp @ [hp ! r])[length hp := flipped])"
    by blast
  let ?hp' = "(hp @ [hp ! r])[length hp := flipped]"
  have fresh: "length hp \<noteq> r"
    using assms(1) by simp
  have trial: "?hp' ! length hp = flipped"
    by simp
  have kept: "\<forall>q. q < length hp \<longrightarrow> ?hp' ! q = hp ! q"
    by (simp add: nth_append)
  then have caller: "?hp' ! r = hp ! r"
    using assms(1) by blast
  from call flipped e_trial e_config fresh trial caller kept show ?thesis
    by blast
qed

theorem delta_e_for_flip_energy_change_witness:
  "\<exists>config_trial delta hp' flipped e_trial e_config.
     delta_e_for_flip \<lparr>J = 2, h = [1, 3, 5], mu = 10, pbc = True\<rparr> 1 0
        [\<lparr>config = [1, 0, 0], N = 3, pbc = True\<rparr>] = (Inr (config_trial, delta), hp')
   \<and> flip_site ([\<lparr>config = [1, 0, 0], N = 3, pbc = True\<rparr>] ! 0) 1 = Inr flipped
   \<and> expectation_value \<lparr>J = 2, h = [1, 3, 5], mu = 10, pbc = True\<rparr> flipped = Inr e_trial
   \<and> expectation_value \<lparr>J = 2, h = [1, 3, 5], mu = 10, pbc = True\<rparr>
        ([\<lparr>config = [1, 0, 0], N = 3, pbc = True\<rparr>] ! 0) = Inr e_config
   \<and> delta = e_trial - e_config
   \<and> config_trial \<noteq> 0 \<and> hp' ! config_trial = flipped
   \<and> hp' ! 0 = [\<lparr>config = [1, 0, 0], N = 3, pbc = True\<rparr>] ! 0
   \<and> (\<forall>q. q < length [\<lparr>config = [1, 0, 0], N = 3, pbc = True\<rparr>] \<longrightarrow>
          hp' ! q = [\<lparr>config = [1, 0, 0], N = 3, pbc = True\<rparr>] ! q)"
  using delta_e_for_flip_energy_change
    [of 0 "[\<lparr>config = [1, 0, 0], N = 3, pbc = True\<rparr>]" 1
        "\<lparr>J = 2, h = [1, 3, 5], mu = 10, pbc = True\<rparr>"]
  by simp

subsection \<open>Sampling without replacement\<close>

lemma pool_step_length:
  "j < length pool \<Longrightarrow> length (take (length pool - 1) (pool[j := pool ! (length pool - 1)])) = length pool - 1"
  by simp

lemma pool_step_nth:
  assumes "m < length pool - 1"
  shows "take (length pool - 1) (pool[j := pool ! (length pool - 1)]) ! m =
           (if m = j then pool ! (length pool - 1) else pool ! m)"
  using assms by (simp add: nth_list_update)

lemma pool_step_set:
  assumes "j < length pool" and "distinct pool"
  shows "set (take (length pool - 1) (pool[j := pool ! (length pool - 1)])) \<subseteq> set pool - {pool ! j}"
proof
  fix x
  let ?pool' = "take (length pool - 1) (pool[j := pool ! (length pool - 1)])"
  assume "x \<in> set ?pool'"
  then obtain m where m: "m < length ?pool'" and x: "x = ?pool' ! m"
    by (auto simp: in_set_conv_nth)
  from m have m': "m < length pool - 1"
    by simp
  have val: "x = (if m = j then pool ! (length pool - 1) else pool ! m)"
    unfolding x using m' by (rule pool_step_nth)
  show "x \<in> set pool - {pool ! j}"
  proof (cases "m = j")
    case True
    then have "x = pool ! (length pool - 1)" using val by simp
    moreover have "length pool - 1 \<noteq> j" using True m' by simp
    ultimately show ?thesis
      using assms m' by (simp add: nth_eq_iff_index_eq)
  next
    case False
    then have "x = pool ! m" using val by simp
    then show ?thesis
      using assms m' False by (simp add: nth_eq_iff_index_eq)
  qed
qed

lemma pool_step_distinct:
  assumes "j < length pool" and "distinct pool"
  shows "distinct (take (length pool - 1) (pool[j := pool ! (length pool - 1)]))"
proof -
  let ?n = "length pool"
  let ?pool' = "take (?n - 1) (pool[j := pool ! (?n - 1)])"
  have "?pool' ! a \<noteq> ?pool' ! b" if "a < ?n - 1" "b < ?n - 1" "a \<noteq> b" for a b
  proof -
    have a: "?pool' ! a = (if a = j then pool ! (?n - 1) else pool ! a)"
      using that(1) by (rule pool_step_nth)
    have b: "?pool' ! b = (if b = j then pool ! (?n - 1) else pool ! b)"
      using that(2) by (rule pool_step_nth)
    show ?thesis
      unfolding a b using that assms by (auto simp: nth_eq_iff_index_eq)
  qed
  then show ?thesis
    by (simp add: distinct_conv_nth)
qed

lemma sample_loop_props:
  "k \<le> length pool \<Longrightarrow> distinct pool \<Longrightarrow> sample_loop pool k g = (xs, g') \<Longrightarrow>
   length xs = k \<and> distinct xs \<and> set xs \<subseteq> set pool \<and> g' = (\<lambda>m. g (m + k))"
proof (induction k arbitrary: pool g xs g')
  case 0 then show ?case by simp
next
  case (Suc k)
  let ?n = "length pool"
  let ?j = "g 0 mod ?n"
  let ?pool' = "take (?n - 1) (pool[?j := pool ! (?n - 1)])"
  have "0 < ?n" using Suc.prems(1) by linarith
  then have j: "?j < ?n" by simp
  obtain ys g2 where rec: "sample_loop ?pool' k (\<lambda>k. g (Suc k)) = (ys, g2)" by force
  have xs: "xs = pool ! ?j # ys" and g': "g' = g2"
    using Suc.prems(3) rec by (simp_all add: randbelow_def)
  have set': "set ?pool' \<subseteq> set pool - {pool ! ?j}"
    using j Suc.prems(2) by (rule pool_step_set)
  have d': "distinct ?pool'"
    using j Suc.prems(2) by (rule pool_step_distinct)
  have len': "k \<le> length ?pool'"
    using Suc.prems(1) by simp
  from Suc.IH [OF len' d' rec]
  have ih: "length ys = k" "distinct ys" "set ys \<subseteq> set ?pool'" "g2 = (\<lambda>m. g (Suc (m + k)))"
    by simp_all
  have "pool ! ?j \<in> set pool" using j by simp
  then show ?case
    using ih set' xs g' by auto
qed

subsection \<open>Initialising with a magnetisation\<close>

lemma set_up_loop_inside:
  assumes "\<forall>i \<in> set js. 0 \<le> i \<and> i < int (length cfg)"
  shows "\<exists>cfg'. set_up_loop cfg js = (None, cfg') \<and> length cfg' = length cfg
           \<and> (\<forall>k < length cfg. cfg' ! k = (if int k \<in> set js then 1 else cfg ! k))"
  using assms
proof (induction js arbitrary: cfg)
  case Nil
  then show ?case by simp
next
  case (Cons i js)
  then have i: "0 \<le> i" "i < int (length cfg)"
    by simp_all
  then have idx: "np_index cfg i = Inr (nat i)"
    by (simp add: np_index_inside)
  have "\<forall>a \<in> set js. 0 \<le> a \<and> a < int (length (cfg[nat i := 1]))"
    using Cons.prems by simp
  from Cons.IH [OF this] obtain cfg' where
    run: "set_up_loop (cfg[nat i := 1]) js = (None, cfg')"
    and len: "length cfg' = length cfg"
    and val: "\<forall>k < length cfg. cfg' ! k = (if int k \<in> set js then 1 else cfg[nat i := 1] ! k)"
    by auto
  have "\<forall>k < length cfg. cfg' ! k = (if int k \<in> set (i # js) then 1 else cfg ! k)"
    using val i by (auto simp: nth_list_update)
  then show ?case
    using run len idx by simp
qed

lemma set_up_loop_keeps:
  assumes "list_all (\<lambda>s. s = 0 \<or> s = 1) cfg"
  shows "length (snd (set_up_loop cfg js)) = length cfg
       \<and> list_all (\<lambda>s. s = 0 \<or> s = 1) (snd (set_up_loop cfg js))"
  using assms
proof (induction js arbitrary: cfg)
  case Nil
  then show ?case by simp
next
  case (Cons i js)
  show ?case
  proof (cases "np_index cfg i")
    case (Inl err)
    then show ?thesis using Cons.prems by simp
  next
    case (Inr k)
    have "list_all (\<lambda>s. s = 0 \<or> s = 1) (cfg[k := 1])"
      using Cons.prems by (auto simp: list_all_iff dest: set_update_subset_insert [THEN subsetD])
    from Cons.IH [OF this] show ?thesis
      using Inr by simp
  qed
qed

lemma py_range_set: "set (py_range n) = {i. 0 \<le> i \<and> i < n}"
proof (rule set_eqI)
  fix i
  show "i \<in> set (py_range n) \<longleftrightarrow> i \<in> {i. 0 \<le> i \<and> i < n}"
  proof
    assume "i \<in> set (py_range n)"
    then obtain k where "k < nat n" and "i = int k"
      by (auto simp: py_range_def)
    then show "i \<in> {i. 0 \<le> i \<and> i < n}"
      by simp
  next
    assume "i \<in> {i. 0 \<le> i \<and> i < n}"
    then have "nat i < nat n" and "i = int (nat i)"
      by simp_all
    then have "i \<in> int ` {0..<nat n}"
      by (metis atLeastLessThan_iff image_eqI le0)
    then show "i \<in> set (py_range n)"
      by (simp add: py_range_def)
  qed
qed

lemma py_range_distinct: "distinct (py_range n)"
  by (simp add: py_range_def distinct_map inj_on_def)

lemma py_range_length: "length (py_range n) = nat n"
  by (simp add: py_range_def)

lemma initialize_success:
  assumes "0 \<le> M" and "M \<le> N c - 1"
  shows "\<exists>randomlist g' cfg.
           sample_loop (py_range (N c - 1)) (nat M) g = (randomlist, g')
         \<and> initialize c M g = (None, c\<lparr>config := cfg\<rparr>, g')
         \<and> length randomlist = nat M \<and> distinct randomlist
         \<and> set randomlist \<subseteq> {i. 0 \<le> i \<and> i < N c - 1}
         \<and> length cfg = nat (N c)
         \<and> (\<forall>k < nat (N c). cfg ! k = (if int k \<in> set randomlist then 1 else 0))"
proof -
  obtain randomlist g' where
    draw: "sample_loop (py_range (N c - 1)) (nat M) g = (randomlist, g')"
    by force
  have "nat M \<le> length (py_range (N c - 1))"
    using assms by (simp add: py_range_length)
  from sample_loop_props [OF this py_range_distinct draw]
  have len: "length randomlist = nat M" and dist: "distinct randomlist"
    and sub: "set randomlist \<subseteq> {i. 0 \<le> i \<and> i < N c - 1}"
    by (simp_all add: py_range_set)
  have sample: "random_sample (py_range (N c - 1)) M g = Inr (randomlist, g')"
    using assms draw by (simp add: random_sample_def py_range_length)
  have "\<forall>i \<in> set randomlist. 0 \<le> i \<and> i < int (length (replicate (nat (N c)) (0::int)))"
    using sub assms by auto
  from set_up_loop_inside [OF this] obtain cfg where
    run: "set_up_loop (replicate (nat (N c)) 0) randomlist = (None, cfg)"
    and cl: "length cfg = nat (N c)"
    and cv: "\<forall>k < nat (N c). cfg ! k = (if int k \<in> set randomlist then 1 else 0)"
    by auto
  have "initialize c M g = (None, c\<lparr>config := cfg\<rparr>, g')"
    using assms sample run by (simp add: initialize_def)
  with draw len dist sub cl cv show ?thesis
    by blast
qed

text \<open>
  Claim C10. For every \<open>M\<close> with \<open>0 \<le> M \<le> N - 1\<close> and every sequence of draws of the
  random source, \<^verbatim>\<open>initialize(M)\<close> returns normally and leaves the last site, index
  \<open>N - 1\<close>, down: the indices are sampled from \<^verbatim>\<open>range(0, N-1)\<close>, which does not
  contain \<open>N - 1\<close>.
\<close>

theorem initialize_last_site_down:
  assumes "0 \<le> M" and "M \<le> N c - 1"
  shows "\<exists>c' g'. initialize c M g = (None, c', g')
           \<and> N c' = N c \<and> int (length (config c')) = N c
           \<and> getitem c' (N c - 1) = Inr 0"
proof -
  from initialize_success [OF assms, of g] obtain randomlist g' cfg where
    run: "initialize c M g = (None, c\<lparr>config := cfg\<rparr>, g')"
    and sub: "set randomlist \<subseteq> {i. 0 \<le> i \<and> i < N c - 1}"
    and cl: "length cfg = nat (N c)"
    and cv: "\<forall>k < nat (N c). cfg ! k = (if int k \<in> set randomlist then 1 else 0)"
    by blast
  from assms have pos: "1 \<le> N c"
    by linarith
  let ?k = "nat (N c - 1)"
  have k: "?k < nat (N c)" and ik: "int ?k = N c - 1"
    using pos by linarith+
  have "int ?k \<notin> set randomlist"
    using sub ik by auto
  then have down: "cfg ! ?k = 0"
    using cv k by simp
  have "getitem (c\<lparr>config := cfg\<rparr>) (int ?k) = Inr (cfg ! ?k)"
    using k cl getitem_inside [of ?k "c\<lparr>config := cfg\<rparr>"] by simp
  then have "getitem (c\<lparr>config := cfg\<rparr>) (N c - 1) = Inr 0"
    using ik down by simp
  moreover have "int (length (config (c\<lparr>config := cfg\<rparr>))) = N c"
    using cl pos by simp
  ultimately show ?thesis
    using run by auto
qed

theorem initialize_last_site_down_witness:
  "\<exists>c' g'. initialize \<lparr>config = [1, 1, 1, 1], N = 4, pbc = True\<rparr> 3 (\<lambda>k. 7 * k + 2) = (None, c', g')
      \<and> N c' = N \<lparr>config = [1, 1, 1, 1], N = 4, pbc = True\<rparr>
      \<and> int (length (config c')) = N \<lparr>config = [1, 1, 1, 1], N = 4, pbc = True\<rparr>
      \<and> getitem c' (N \<lparr>config = [1, 1, 1, 1], N = 4, pbc = True\<rparr> - 1) = Inr 0"
  by (rule initialize_last_site_down) simp_all

text \<open>
  Claim C5 asks \<^verbatim>\<open>initialize(M)\<close> to succeed for every \<open>0 \<le> M \<le> N\<close> and to choose among
  all \<open>N\<close> sites. The population \<^verbatim>\<open>range(0, self.N-1)\<close> is one site short: on three
  sites, \<open>M = 3\<close> makes \<^verbatim>\<open>random.sample\<close> raise ValueError, whatever the draws.
\<close>

theorem initialize_full_magnetization_raises:
  "fst (initialize \<lparr>config = [0, 0, 0], N = 3, pbc = True\<rparr> 3 (\<lambda>k. 0)) = Some ValueError"
  by (simp add: initialize_def random_sample_def py_range_def)

lemma initialize_full_raises:
  "1 \<le> N c \<Longrightarrow> fst (initialize c (N c) g) = Some ValueError"
  by (simp add: initialize_def random_sample_def py_range_length)

subsection \<open>The invariant and the integer encoding\<close>

lemma SpinConfig1D_init_inv: "SpinConfig1D_init n p = Inr c \<Longrightarrow> spin_inv c"
  by (auto simp: SpinConfig1D_init_def spin_inv_def list_all_iff split: if_splits)

lemma flip_site_inv:
  assumes "spin_inv c" and "flip_site c i = Inr c'"
  shows "spin_inv c'"
proof -
  from assms(2) obtain k where c': "c' = c\<lparr>config := (config c)[k := 0]\<rparr> \<or> c' = c\<lparr>config := (config c)[k := 1]\<rparr>"
    by (auto simp: flip_site_def split: sum.splits if_splits)
  have "list_all (\<lambda>s. s = 0 \<or> s = 1) ((config c)[k := v])" if "v = 0 \<or> v = 1" for v :: int
    using assms(1) that by (auto simp: spin_inv_def list_all_iff dest: set_update_subset_insert [THEN subsetD])
  then show ?thesis
    using c' assms(1) by (auto simp: spin_inv_def)
qed

lemma initialize_inv:
  assumes "spin_inv c"
  shows "spin_inv (fst (snd (initialize c M g)))"
proof -
  from assms have n: "0 \<le> N c"
    by (auto simp: spin_inv_def)
  let ?zeros = "replicate (nat (N c)) (0::int)"
  have zeros: "list_all (\<lambda>s. s = 0 \<or> s = 1) ?zeros"
    by (simp add: list_all_iff)
  show ?thesis
  proof (cases "random_sample (py_range (N c - 1)) M g")
    case (Inl err)
    then show ?thesis
      using n zeros by (simp add: initialize_def spin_inv_def)
  next
    case (Inr res)
    obtain randomlist g' where res: "res = (randomlist, g')"
      by (cases res)
    obtain outcome cfg where run: "set_up_loop ?zeros randomlist = (outcome, cfg)"
      by (cases "set_up_loop ?zeros randomlist")
    from set_up_loop_keeps [OF zeros, of randomlist] run
    have "length cfg = nat (N c)" and "list_all (\<lambda>s. s = 0 \<or> s = 1) cfg"
      by simp_all
    then show ?thesis
      using n Inr res run by (simp add: initialize_def spin_inv_def)
  qed
qed

lemma binary_digits_length: "length (binary_digits w v) = w"
  by (induction w arbitrary: v) simp_all

lemma binary_digits_bits: "list_all (\<lambda>s. s = 0 \<or> s = 1) (binary_digits w v)"
proof (induction w arbitrary: v)
  case 0
  then show ?case by simp
next
  case (Suc w)
  have "v mod 2 = 0 \<or> v mod 2 = 1"
    by presburger
  with Suc show ?case by simp
qed

lemma set_int_config_inv:
  assumes "spin_inv c" and "set_int_config c v = Inr c'"
  shows "spin_inv c'"
  using assms
  by (auto simp: set_int_config_def spin_inv_def binary_digits_length binary_digits_bits
      split: if_splits)

lemma binary_digits_value:
  "foldl (\<lambda>acc b. 2 * acc + b) 0 (binary_digits w v) = v mod 2 ^ w"
proof (induction w arbitrary: v)
  case 0
  then show ?case by simp
next
  case (Suc w)
  have "foldl (\<lambda>acc b. 2 * acc + b) 0 (binary_digits (Suc w) v)
          = 2 * (v div 2 mod 2 ^ w) + v mod 2"
    by (simp add: Suc)
  also have "\<dots> = v mod 2 ^ Suc w"
    using zmod_zmult2_eq [of "2 ^ w" v 2] by simp
  finally show ?case .
qed

lemma read_loop_upt:
  assumes "b \<le> length (config c)"
  shows "read_loop c (map int [a..<b]) acc =
           Inr (foldl (\<lambda>acc b. 2 * acc + b) acc (map (\<lambda>i. config c ! i) [a..<b]))"
  using assms
proof (induction "b - a" arbitrary: a acc)
  case 0
  then show ?case by simp
next
  case (Suc d)
  then have ab: "a < b" and rest: "d = b - Suc a"
    by linarith+
  have "getitem c (int a) = Inr (config c ! a)"
    using ab Suc.prems by (simp add: getitem_inside)
  then show ?case
    using ab Suc.hyps(1) [OF rest Suc.prems] by (simp add: upt_conv_Cons)
qed

lemma read_back_integer_value:
  assumes n: "nat (N c) = length (config c)"
  shows "read_back_integer c = Inr (foldl (\<lambda>acc b. 2 * acc + b) 0 (config c))"
proof -
  have "read_back_integer c =
          Inr (foldl (\<lambda>acc b. 2 * acc + b) 0 (map (\<lambda>i. config c ! i) [0..<length (config c)]))"
    unfolding read_back_integer_def py_range_def n by (rule read_loop_upt) simp
  then show ?thesis
    by (simp add: map_nth)
qed

text \<open>
  Claim C6. For every \<open>v\<close> in \<open>[0, 2^N)\<close>, \<^verbatim>\<open>set_int_config(v)\<close> succeeds and reading the
  \<open>N\<close> sites back, most significant bit first as they were written, gives \<open>v\<close>; for
  every \<open>v\<close> outside \<open>[0, 2^N)\<close> it fails with EncodingRangeError.
\<close>

theorem set_int_config_round_trip:
  "(0 \<le> v \<and> v < 2 ^ nat (N c) \<longrightarrow>
            (\<exists>c'. set_int_config c v = Inr c' \<and> N c' = N c \<and> read_back_integer c' = Inr v))
       \<and> (v < 0 \<or> 2 ^ nat (N c) \<le> v \<longrightarrow> set_int_config c v = Inl EncodingRangeError)"
proof -
  let ?c' = "c\<lparr>config := binary_digits (nat (N c)) v\<rparr>"
  have shape: "nat (N ?c') = length (config ?c')"
    by (simp add: binary_digits_length)
  have "read_back_integer ?c' = Inr v" if "0 \<le> v" and "v < 2 ^ nat (N c)"
    using that read_back_integer_value [OF shape] by (simp add: binary_digits_value)
  then show ?thesis
    by (auto simp: set_int_config_def)
qed

theorem set_int_config_round_trip_witness:
  "(\<exists>c'. set_int_config \<lparr>config = [0, 0, 0, 0], N = 4, pbc = True\<rparr> 11 = Inr c'
        \<and> N c' = 4 \<and> read_back_integer c' = Inr 11)
   \<and> set_int_config \<lparr>config = [0, 0, 0, 0], N = 4, pbc = True\<rparr> 16 = Inl EncodingRangeError
   \<and> set_int_config \<lparr>config = [0, 0, 0, 0], N = 4, pbc = True\<rparr> (- 1) = Inl EncodingRangeError"
  using set_int_config_round_trip [where c = "\<lparr>config = [0, 0, 0, 0], N = 4, pbc = True\<rparr>" and v = 11]
    set_int_config_round_trip [where c = "\<lparr>config = [0, 0, 0, 0], N = 4, pbc = True\<rparr>" and v = 16]
    set_int_config_round_trip [where c = "\<lparr>config = [0, 0, 0, 0], N = 4, pbc = True\<rparr>" and v = "- 1"]
  by simp

lemma set_int_config_eleven:
  "set_int_config \<lparr>config = [0, 0, 0, 0], N = 4, pbc = True\<rparr> 11 = Inr \<lparr>config = [1, 0, 1, 1], N = 4, pbc = True\<rparr>"
  by (simp add: set_int_config_def eval_nat_numeral)

text \<open>
  Claim C8. Every operation of \<^verbatim>\<open>SpinConfig1D\<close> keeps the invariant that the array has
  length \<open>N\<close> and holds only 0 and 1: a constructed object has it; \<^verbatim>\<open>initialize\<close> keeps
  it, whether it returns or raises; \<^verbatim>\<open>set_int_config\<close> and \<^verbatim>\<open>flip_site\<close> keep it when
  they return (and change nothing when they raise).
\<close>

theorem spin_inv_preserved:
  "(SpinConfig1D_init n p = Inr c0 \<longrightarrow> spin_inv c0)
   \<and> (spin_inv c \<longrightarrow> spin_inv (fst (snd (initialize c M g))))
   \<and> (spin_inv c \<and> set_int_config c v = Inr c1 \<longrightarrow> spin_inv c1)
   \<and> (spin_inv c \<and> flip_site c i = Inr c2 \<longrightarrow> spin_inv c2)"
  using SpinConfig1D_init_inv initialize_inv set_int_config_inv flip_site_inv
  by blast


theorem spin_inv_preserved_witness:
  "spin_inv \<lparr>config = [0, 0, 0], N = 3, pbc = True\<rparr>
   \<and> spin_inv (fst (snd (initialize \<lparr>config = [1, 0, 1], N = 3, pbc = True\<rparr> 2 (\<lambda>k. 0))))
   \<and> spin_inv \<lparr>config = [1, 1, 0], N = 3, pbc = True\<rparr>
   \<and> spin_inv \<lparr>config = [1, 1, 1], N = 3, pbc = True\<rparr>"
  using spin_inv_preserved [of 3 True "\<lparr>config = [0, 0, 0], N = 3, pbc = True\<rparr>"
      "\<lparr>config = [1, 0, 1], N = 3, pbc = True\<rparr>" 2 "\<lambda>k. 0"
      6 "\<lparr>config = [1, 1, 0], N = 3, pbc = True\<rparr>"
      1 "\<lparr>config = [1, 1, 1], N = 3, pbc = True\<rparr>"]
  by (simp add: SpinConfig1D_init_def set_int_config_def flip_site_def np_index_def
      spin_inv_def eval_nat_numeral)

subsection \<open>The Metropolis sweep\<close>

lemma uniform_of_draw_range: "0 \<le> uniform_of_draw d \<and> uniform_of_draw d < 1"
proof -
  have "d mod 2 ^ 53 < 2 ^ 53"
    by simp
  then have "real (d mod 2 ^ 53) < 2 ^ 53"
    by (metis of_nat_less_iff of_nat_numeral of_nat_power)
  then show ?thesis
    by (simp add: uniform_of_draw_def)
qed

lemma sweep_loop_run:
  assumes "r < length hp"
    and "N (hp ! r) = int n" and "length (config (hp ! r)) = n"
    and "n \<le> length (h ham)" and "a \<le> n"
  shows "\<exists>cs hp' g'.
           sweep_loop ham T r (map int [a..<n]) hp g = (None, hp', g')
         \<and> cs a = hp ! r \<and> hp' ! r = cs n
         \<and> g' = (\<lambda>m. g (m + (n - a)))
         \<and> (\<forall>q. q < length hp \<and> q \<noteq> r \<longrightarrow> hp' ! q = hp ! q)
         \<and> (\<forall>k. a \<le> k \<and> k < n \<longrightarrow>
               metropolis_rule ham T (uniform_of_draw (g (k - a))) (cs k) (int k) (cs (Suc k)))"
  using assms
proof (induction "n - a" arbitrary: a hp g)
  case 0
  then have "a = n"
    by simp
  then have "sweep_loop ham T r (map int [a..<n]) hp g = (None, hp, g)"
    by simp
  then show ?case
    using \<open>a = n\<close> by (intro exI [of _ "\<lambda>_. hp ! r"] exI [of _ hp] exI [of _ g]) auto
next
  case (Suc d)
  then have an: "a < n" and rest: "d = n - Suc a"
    by linarith+
  let ?c = "hp ! r"
  have shape: "int (length (config ?c)) = N ?c"
    using Suc.prems by simp
  have i_hi: "int a < N ?c" and h_ok: "N ?c \<le> int (length (h ham))"
    using an Suc.prems by simp_all
  from delta_e_for_flip_result [OF Suc.prems(1) shape _ i_hi h_ok]
  obtain flipped e1 e0 where
    flipped: "flip_site ?c (int a) = Inr flipped"
    and e1: "expectation_value ham flipped = Inr e1"
    and e0: "expectation_value ham ?c = Inr e0"
    and call: "delta_e_for_flip ham (int a) r hp =
        (Inr (length hp, e1 - e0), (hp @ [?c])[length hp := flipped])"
    by auto
  let ?hp1 = "(hp @ [?c])[length hp := flipped]"
  let ?u = "uniform_of_draw (g 0)"
  let ?g1 = "\<lambda>k. g (Suc k)"
  let ?acc = "e1 - e0 \<le> 0 \<or> ?u < exp (- (e1 - e0) / T)"
  let ?c1 = "if ?acc then flipped else ?c"
  let ?hp2 = "if ?acc then ?hp1[r := flipped] else ?hp1"
  have hp1_r: "?hp1 ! r = ?c"
    using Suc.prems(1) by (simp add: nth_append)
  define dE where "dE = e1 - e0"
  have call': "delta_e_for_flip ham (int a) r hp = (Inr (length hp, dE), ?hp1)"
    using call by (simp only: dE_def)
  have acc: "?acc \<longleftrightarrow> dE \<le> 0 \<or> ?u < exp (- dE / T)"
    by (simp only: dE_def)
  have unfold: "sweep_loop ham T r (map int [a..<n]) hp g =
                  sweep_loop ham T r (map int [Suc a..<n]) ?hp2 ?g1"
    unfolding acc using an call' hp1_r flipped
    by (simp add: upt_conv_Cons random_uniform_def)
  have r2: "r < length ?hp2"
    using Suc.prems(1) by simp
  have hp2_r: "?hp2 ! r = ?c1"
    using Suc.prems(1) hp1_r by simp
  have fl: "length (config flipped) = n" "N flipped = int n"
    using flip_site_length [OF flipped] Suc.prems by simp_all
  have N2: "N (?hp2 ! r) = int n" and len2: "length (config (?hp2 ! r)) = n"
    unfolding hp2_r using fl Suc.prems by simp_all
  have a2: "Suc a \<le> n"
    using an by simp
  from Suc.hyps(1) [OF rest r2 N2 len2 Suc.prems(4) a2, of ?g1]
  obtain cs hp' g' where
    run: "sweep_loop ham T r (map int [Suc a..<n]) ?hp2 ?g1 = (None, hp', g')"
    and start: "cs (Suc a) = ?hp2 ! r" and final: "hp' ! r = cs n"
    and g': "g' = (\<lambda>m. g (Suc (m + (n - Suc a))))"
    and others: "\<forall>q. q < length ?hp2 \<and> q \<noteq> r \<longrightarrow> hp' ! q = ?hp2 ! q"
    and steps: "\<forall>k. Suc a \<le> k \<and> k < n \<longrightarrow>
        metropolis_rule ham T (uniform_of_draw (g (Suc (k - Suc a)))) (cs k) (int k) (cs (Suc k))"
    by blast
  let ?cs = "cs(a := ?c)"
  have 1: "sweep_loop ham T r (map int [a..<n]) hp g = (None, hp', g')"
    using unfold run by simp
  have 2: "?cs a = hp ! r"
    by simp
  have 3: "hp' ! r = ?cs n"
    using final an by simp
  have 4: "g' = (\<lambda>m. g (m + (n - a)))"
  proof -
    have "g (Suc (m + (n - Suc a))) = g (m + (n - a))" for m
    proof -
      have "Suc (m + (n - Suc a)) = m + (n - a)"
        using an by linarith
      then show ?thesis
        by (rule arg_cong)
    qed
    then show ?thesis
      unfolding g' by (rule ext)
  qed
  have 5: "\<forall>q. q < length hp \<and> q \<noteq> r \<longrightarrow> hp' ! q = hp ! q"
  proof (intro allI impI)
    fix q assume q: "q < length hp \<and> q \<noteq> r"
    then have "hp' ! q = ?hp2 ! q"
      using others by simp
    also have "\<dots> = hp ! q"
      using q by (simp add: nth_append)
    finally show "hp' ! q = hp ! q" .
  qed
  have here: "metropolis_rule ham T ?u ?c (int a) ?c1"
    unfolding metropolis_rule_def using flipped e1 e0 by blast
  have 6: "\<forall>k. a \<le> k \<and> k < n \<longrightarrow>
      metropolis_rule ham T (uniform_of_draw (g (k - a))) (?cs k) (int k) (?cs (Suc k))"
  proof (intro allI impI)
    fix k assume k: "a \<le> k \<and> k < n"
    show "metropolis_rule ham T (uniform_of_draw (g (k - a))) (?cs k) (int k) (?cs (Suc k))"
    proof (cases "k = a")
      case True
      then show ?thesis
        using here start hp2_r by simp
    next
      case False
      then have ka: "Suc a \<le> k" and draw: "Suc (k - Suc a) = k - a"
        using k by linarith+
      from steps ka k have
        "metropolis_rule ham T (uniform_of_draw (g (Suc (k - Suc a)))) (cs k) (int k) (cs (Suc k))"
        by blast
      then show ?thesis
        unfolding draw using False ka by simp
    qed
  qed
  from 1 2 3 4 5 6 show ?case
    by blast
qed


text \<open>
  Claim C4. For a configuration object \<open>r\<close> of length \<open>N = n\<close> and a field list with an
  entry per site: with \<open>T \<le> 0\<close>, \<^verbatim>\<open>metropolis_sweep\<close> fails with
  InvalidTemperatureError and changes neither the heap nor the random source; with
  \<open>T > 0\<close> it returns normally after visiting the sites \<open>0, \<dots>, N - 1\<close> once each in
  this order. The visit of site \<open>k\<close> takes the configuration \<open>cs k\<close> to \<open>cs (k + 1)\<close> by
  the acceptance rule with the \<open>k\<close>-th draw of the random source as \<open>u\<close>: flipped at
  \<open>k\<close> if and only if \<open>\<Delta>E \<le> 0\<close> or \<open>u < exp(-\<Delta>E / T)\<close>, unchanged otherwise. Exactly
  \<open>N\<close> draws are consumed, and no other object the caller could reach is changed.
\<close>

theorem metropolis_sweep_rule:
  assumes "r < length hp"
    and "N (hp ! r) = int n" and "length (config (hp ! r)) = n"
    and "n \<le> length (h ham)"
  shows "(T \<le> 0 \<longrightarrow> metropolis_sweep ham r T hp g = (Some InvalidTemperatureError, hp, g))
       \<and> (0 < T \<longrightarrow>
            (\<exists>cs hp' g'.
                metropolis_sweep ham r T hp g = (None, hp', g')
              \<and> cs 0 = hp ! r \<and> hp' ! r = cs n
              \<and> g' = (\<lambda>m. g (m + n))
              \<and> (\<forall>q. q < length hp \<and> q \<noteq> r \<longrightarrow> hp' ! q = hp ! q)
              \<and> (\<forall>k. k < n \<longrightarrow>
                    metropolis_rule ham T (uniform_of_draw (g k)) (cs k) (int k) (cs (Suc k)))))"
proof -
  have cold: "metropolis_sweep ham r T hp g = (Some InvalidTemperatureError, hp, g)" if "T \<le> 0"
    using that by (simp add: metropolis_sweep_def)
  have sites: "py_range (N (hp ! r)) = map int [0..<n]"
    using assms(2) by (simp add: py_range_def)
  from sweep_loop_run [OF assms, of 0 T g] obtain cs hp' g' where
    "sweep_loop ham T r (map int [0..<n]) hp g = (None, hp', g')"
    and "cs 0 = hp ! r" and "hp' ! r = cs n" and "g' = (\<lambda>m. g (m + n))"
    and "\<forall>q. q < length hp \<and> q \<noteq> r \<longrightarrow> hp' ! q = hp ! q"
    and "\<forall>k. k < n \<longrightarrow>
          metropolis_rule ham T (uniform_of_draw (g k)) (cs k) (int k) (cs (Suc k))"
    by auto
  then have warm: "\<exists>cs hp' g'.
        metropolis_sweep ham r T hp g = (None, hp', g')
      \<and> cs 0 = hp ! r \<and> hp' ! r = cs n
      \<and> g' = (\<lambda>m. g (m + n))
      \<and> (\<forall>q. q < length hp \<and> q \<noteq> r \<longrightarrow> hp' ! q = hp ! q)
      \<and> (\<forall>k. k < n \<longrightarrow>
            metropolis_rule ham T (uniform_of_draw (g k)) (cs k) (int k) (cs (Suc k)))"
    if "0 < T"
    using that sites by (auto simp: metropolis_sweep_def)
  from cold warm show ?thesis
    by blast
qed

theorem metropolis_sweep_rule_witness:
  "metropolis_sweep \<lparr>J = 1, h = [1, 1], mu = 1, pbc = True\<rparr> 0 (- 1)
       [\<lparr>config = [1, 0], N = 2, pbc = True\<rparr>] (\<lambda>k. 0)
     = (Some InvalidTemperatureError, [\<lparr>config = [1, 0], N = 2, pbc = True\<rparr>], \<lambda>k. 0)
   \<and> (\<exists>cs hp' g'.
         metropolis_sweep \<lparr>J = 1, h = [1, 1], mu = 1, pbc = True\<rparr> 0 1
             [\<lparr>config = [1, 0], N = 2, pbc = True\<rparr>] (\<lambda>k. 0) = (None, hp', g')
       \<and> cs 0 = \<lparr>config = [1, 0], N = 2, pbc = True\<rparr> \<and> hp' ! 0 = cs 2
       \<and> (\<forall>k. k < 2 \<longrightarrow>
             metropolis_rule \<lparr>J = 1, h = [1, 1], mu = 1, pbc = True\<rparr> 1 (uniform_of_draw 0)
               (cs k) (int k) (cs (Suc k))))"
proof -
  let ?ham = "\<lparr>J = 1, h = [1, 1], mu = 1, pbc = True\<rparr>"
  let ?hp = "[\<lparr>config = [1, 0], N = 2, pbc = True\<rparr>]"
  have pre: "0 < length ?hp" "N (?hp ! 0) = int 2" "length (config (?hp ! 0)) = 2"
    "2 \<le> length (h ?ham)"
    by simp_all
  from metropolis_sweep_rule [OF pre, of "- 1" "\<lambda>k. 0"]
  have cold: "metropolis_sweep ?ham 0 (- 1) ?hp (\<lambda>k. 0) = (Some InvalidTemperatureError, ?hp, \<lambda>k. 0)"
    by simp
  from metropolis_sweep_rule [OF pre, of 1 "\<lambda>k. 0"] obtain cs hp' g' where
    run: "metropolis_sweep ?ham 0 1 ?hp (\<lambda>k. 0) = (None, hp', g')"
    and ends: "cs 0 = ?hp ! 0" "hp' ! 0 = cs 2"
    and steps: "\<forall>k. k < 2 \<longrightarrow> metropolis_rule ?ham 1 (uniform_of_draw 0) (cs k) (int k) (cs (Suc k))"
    by auto
  from cold run ends steps show ?thesis
    by auto
qed

subsection \<open>Exact averages\<close>

lemma set_int_config_inside:
  assumes "0 \<le> v" and "v < 2 ^ nat (N c)"
  shows "set_int_config c v = Inr (c\<lparr>config := binary_digits (nat (N c)) v\<rparr>)"
  using assms by (simp add: set_int_config_def)

lemma average_loop_upt:
  assumes "N c = n" and "b \<le> 2 ^ nat n"
    and "\<forall>s<b. expectation_value ham (c\<lparr>config := binary_digits (nat n) (int s)\<rparr>) = Inr (En s)
              \<and> magnetization (c\<lparr>config := binary_digits (nat n) (int s)\<rparr>) = Mg s"
  shows "average_loop ham T c (map int [a..<b]) (Z, E, EE, M, MM) =
           Inr (Z + (\<Sum>s = a..<b. exp (- En s / T)),
                E + (\<Sum>s = a..<b. exp (- En s / T) * En s),
                EE + (\<Sum>s = a..<b. exp (- En s / T) * En s * En s),
                M + (\<Sum>s = a..<b. exp (- En s / T) * Mg s),
                MM + (\<Sum>s = a..<b. exp (- En s / T) * Mg s * Mg s))"
  using assms
proof (induction "b - a" arbitrary: a c Z E EE M MM)
  case 0
  then show ?case by simp
next
  case (Suc d)
  then have ab: "a < b" and rest: "d = b - Suc a"
    by linarith+
  let ?cs = "c\<lparr>config := binary_digits (nat n) (int a)\<rparr>"
  have "int a < 2 ^ nat n"
    using ab Suc.prems(2) by (metis less_le_trans of_nat_less_iff of_nat_numeral of_nat_power)
  then have set_a: "set_int_config c (int a) = Inr ?cs"
    using Suc.prems(1) set_int_config_inside [of "int a" c] by simp
  have en: "expectation_value ham ?cs = Inr (En a)" and mg: "magnetization ?cs = Mg a"
    using Suc.prems(3) ab by simp_all
  have N': "N ?cs = n"
    using Suc.prems(1) by simp
  have st': "\<forall>s<b. expectation_value ham (?cs\<lparr>config := binary_digits (nat n) (int s)\<rparr>) = Inr (En s)
              \<and> magnetization (?cs\<lparr>config := binary_digits (nat n) (int s)\<rparr>) = Mg s"
    using Suc.prems(3) by simp
  define w where "w = exp (- En a / T)"
  have "average_loop ham T c (map int [a..<b]) (Z, E, EE, M, MM) =
          average_loop ham T ?cs (map int [Suc a..<b])
            (Z + w, E + w * En a, EE + w * En a * En a, M + w * Mg a, MM + w * Mg a * Mg a)"
    using ab set_a en mg by (simp add: upt_conv_Cons w_def Let_def)
  also have "\<dots> = Inr (Z + w + (\<Sum>s = Suc a..<b. exp (- En s / T)),
                E + w * En a + (\<Sum>s = Suc a..<b. exp (- En s / T) * En s),
                EE + w * En a * En a + (\<Sum>s = Suc a..<b. exp (- En s / T) * En s * En s),
                M + w * Mg a + (\<Sum>s = Suc a..<b. exp (- En s / T) * Mg s),
                MM + w * Mg a * Mg a + (\<Sum>s = Suc a..<b. exp (- En s / T) * Mg s * Mg s))"
    by (rule Suc.hyps(1) [OF rest N' Suc.prems(2) st'])
  also have "\<dots> = Inr (Z + (\<Sum>s = a..<b. exp (- En s / T)),
                E + (\<Sum>s = a..<b. exp (- En s / T) * En s),
                EE + (\<Sum>s = a..<b. exp (- En s / T) * En s * En s),
                M + (\<Sum>s = a..<b. exp (- En s / T) * Mg s),
                MM + (\<Sum>s = a..<b. exp (- En s / T) * Mg s * Mg s))"
    using ab by (simp add: sum.atLeast_Suc_lessThan w_def add.assoc)
  finally show ?case .
qed


text \<open>
  Claim C3. For every \<open>T \<le> 0\<close>, \<^verbatim>\<open>compute_average_values\<close> fails with
  InvalidTemperatureError, whatever the other arguments. For \<open>T > 0\<close>, a chain of
  \<open>N = n \<ge> 1\<close> sites within the enumeration budget and a field list with an entry per
  site, it enumerates the \<open>2^N\<close> microstates \<open>s = 0, \<dots>, 2^N - 1\<close>, each set with
  \<^verbatim>\<open>set_int_config\<close> and scored with \<^verbatim>\<open>expectation_value\<close> (energy \<open>En s\<close>, magnetisation
  \<open>Mg s\<close>), and returns \<open>(\<langle>E\<rangle>, \<langle>M\<rangle>, HC, MS)\<close> with \<open>Z = \<Sum> w\<close>, \<open>\<langle>E\<rangle> = \<Sum> w E / Z\<close>,
  \<open>\<langle>E\<^sup>2\<rangle> = \<Sum> w E\<^sup>2 / Z\<close>, \<open>\<langle>M\<rangle> = \<Sum> w M / Z\<close>, \<open>\<langle>M\<^sup>2\<rangle> = \<Sum> w M\<^sup>2 / Z\<close> for the weights
  \<open>w = exp(-E / T)\<close>, and \<open>HC = (\<langle>E\<^sup>2\<rangle> - \<langle>E\<rangle>\<^sup>2) / T\<^sup>2\<close>, \<open>MS = (\<langle>M\<^sup>2\<rangle> - \<langle>M\<rangle>\<^sup>2) / T\<close>.
\<close>

theorem compute_average_values_statistics:
  "(T \<le> 0 \<longrightarrow> compute_average_values budget n ham T = Inl InvalidTemperatureError)
   \<and> (0 < T \<and> 1 \<le> n \<and> n \<le> int (length (h ham)) \<and> 2 ^ nat n \<le> budget \<longrightarrow>
        (\<exists>c0 En Mg Z E EE M MM.
            SpinConfig1D_init n (IsingHamiltonian1D.pbc ham) = Inr c0
          \<and> (\<forall>s<2 ^ nat n. \<exists>c. set_int_config c0 (int s) = Inr c
                  \<and> expectation_value ham c = Inr (En s) \<and> magnetization c = Mg s)
          \<and> Z = (\<Sum>s<2 ^ nat n. exp (- En s / T)) \<and> 0 < Z
          \<and> E = (\<Sum>s<2 ^ nat n. exp (- En s / T) * En s) / Z
          \<and> EE = (\<Sum>s<2 ^ nat n. exp (- En s / T) * (En s)\<^sup>2) / Z
          \<and> M = (\<Sum>s<2 ^ nat n. exp (- En s / T) * Mg s) / Z
          \<and> MM = (\<Sum>s<2 ^ nat n. exp (- En s / T) * (Mg s)\<^sup>2) / Z
          \<and> compute_average_values budget n ham T =
                Inr (E, M, (EE - E\<^sup>2) / T\<^sup>2, (MM - M\<^sup>2) / T)))"
  (is "(_ \<longrightarrow> ?cold) \<and> (?pre \<longrightarrow> ?warm)")
proof (intro conjI impI)
  assume "T \<le> 0"
  then show ?cold
    by (simp add: compute_average_values_def)
next
  assume ?pre
  then have T: "0 < T" and n: "1 \<le> n" and hn: "n \<le> int (length (h ham))"
    and fits: "2 ^ nat n \<le> budget"
    by simp_all
  let ?m = "2 ^ nat n :: nat"
  define c0 where "c0 = \<lparr>config = replicate (nat n) 0, N = n, pbc = IsingHamiltonian1D.pbc ham\<rparr>"
  define micro where "micro s = c0\<lparr>config := binary_digits (nat n) (int s)\<rparr>" for s
  have init: "SpinConfig1D_init n (IsingHamiltonian1D.pbc ham) = Inr c0"
    using n by (simp add: SpinConfig1D_init_def c0_def)
  have N0: "N c0 = n"
    by (simp add: c0_def)
  have shape: "int (length (config (micro s))) = N (micro s)" and Nm: "N (micro s) = n" for s
    using n by (simp_all add: micro_def c0_def binary_digits_length)
  have scored: "\<exists>e. expectation_value ham (micro s) = Inr e" for s
    using expectation_value_closed [OF shape, of s ham] n hn Nm by simp
  define En where "En s = (case expectation_value ham (micro s) of Inr e \<Rightarrow> e | Inl err \<Rightarrow> 0)" for s
  define Mg where "Mg s = magnetization (micro s)" for s
  have en: "expectation_value ham (micro s) = Inr (En s)" for s
    using scored [of s] by (auto simp: En_def)
  have encoded: "set_int_config c0 (int s) = Inr (micro s)" if "s < ?m" for s
  proof -
    have "int s < int ?m"
      using that by (simp only: of_nat_less_iff)
    then have "int s < 2 ^ nat n"
      by simp
    then show ?thesis
      using set_int_config_inside [of "int s" c0] by (simp add: N0 micro_def)
  qed
  have states: "\<forall>s<?m. \<exists>c. set_int_config c0 (int s) = Inr c
      \<and> expectation_value ham c = Inr (En s) \<and> magnetization c = Mg s"
  proof (intro allI impI)
    fix s assume "s < ?m"
    then have "set_int_config c0 (int s) = Inr (micro s)"
      by (rule encoded)
    moreover have "magnetization (micro s) = Mg s"
      by (simp only: Mg_def)
    ultimately show "\<exists>c. set_int_config c0 (int s) = Inr c
        \<and> expectation_value ham c = Inr (En s) \<and> magnetization c = Mg s"
      using en [of s] by blast
  qed
  define Z where "Z = (\<Sum>s<?m. exp (- En s / T))"
  define S1 where "S1 = (\<Sum>s<?m. exp (- En s / T) * En s)"
  define S2 where "S2 = (\<Sum>s<?m. exp (- En s / T) * En s * En s)"
  define S3 where "S3 = (\<Sum>s<?m. exp (- En s / T) * Mg s)"
  define S4 where "S4 = (\<Sum>s<?m. exp (- En s / T) * Mg s * Mg s)"
  have scores: "\<forall>s<?m. expectation_value ham (c0\<lparr>config := binary_digits (nat n) (int s)\<rparr>) = Inr (En s)
            \<and> magnetization (c0\<lparr>config := binary_digits (nat n) (int s)\<rparr>) = Mg s"
    using en by (simp add: Mg_def micro_def)
  have "average_loop ham T c0 (map int [0..<?m]) (0, 0, 0, 0, 0) =
      Inr (0 + (\<Sum>s = 0..<?m. exp (- En s / T)),
           0 + (\<Sum>s = 0..<?m. exp (- En s / T) * En s),
           0 + (\<Sum>s = 0..<?m. exp (- En s / T) * En s * En s),
           0 + (\<Sum>s = 0..<?m. exp (- En s / T) * Mg s),
           0 + (\<Sum>s = 0..<?m. exp (- En s / T) * Mg s * Mg s))"
    using N0 order_refl scores by (rule average_loop_upt)
  then have loop: "average_loop ham T c0 (map int [0..<?m]) (0, 0, 0, 0, 0) = Inr (Z, S1, S2, S3, S4)"
    by (simp only: Z_def S1_def S2_def S3_def S4_def atLeast0LessThan add_0)
  have "nat (2 ^ nat n) = ?m"
    by (simp add: nat_power_eq)
  then have range: "py_range (2 ^ nat n) = map int [0..<?m]"
    by (simp only: py_range_def)
  have "int ?m \<le> int budget"
    using fits by (simp only: of_nat_le_iff)
  then have budget: "\<not> int budget < 2 ^ nat n"
    by simp
  have call: "compute_average_values budget n ham T =
      Inr (S1 / Z, S3 / Z, (S2 / Z - (S1 / Z) * (S1 / Z)) / (T * T),
           (S4 / Z - (S3 / Z) * (S3 / Z)) / T)"
    using T budget by (simp add: compute_average_values_def init range loop)
  have "(0::nat) \<in> {..<?m}"
    by simp
  then have "{..<?m} \<noteq> {}"
    by blast
  then have Zpos: "0 < Z"
    unfolding Z_def by (intro sum_pos) simp_all
  have sq2: "(\<Sum>s<?m. exp (- En s / T) * (En s)\<^sup>2) = S2"
    and sq4: "(\<Sum>s<?m. exp (- En s / T) * (Mg s)\<^sup>2) = S4"
    by (simp_all only: S2_def S4_def power2_eq_square mult.assoc)
  have f3: "Z = (\<Sum>s<?m. exp (- En s / T))"
    by (rule Z_def)
  have f5: "S1 / Z = (\<Sum>s<?m. exp (- En s / T) * En s) / Z"
    by (simp only: S1_def)
  have f6: "S2 / Z = (\<Sum>s<?m. exp (- En s / T) * (En s)\<^sup>2) / Z"
    by (simp only: sq2)
  have f7: "S3 / Z = (\<Sum>s<?m. exp (- En s / T) * Mg s) / Z"
    by (simp only: S3_def)
  have f8: "S4 / Z = (\<Sum>s<?m. exp (- En s / T) * (Mg s)\<^sup>2) / Z"
    by (simp only: sq4)
  have f9: "compute_average_values budget n ham T =
      Inr (S1 / Z, S3 / Z, (S2 / Z - (S1 / Z)\<^sup>2) / T\<^sup>2, (S4 / Z - (S3 / Z)\<^sup>2) / T)"
    using call by (simp only: power2_eq_square)
  show ?warm
    by (rule exI [of _ c0], rule exI [of _ En], rule exI [of _ Mg], rule exI [of _ Z],
        rule exI [of _ "S1 / Z"], rule exI [of _ "S2 / Z"], rule exI [of _ "S3 / Z"],
        rule exI [of _ "S4 / Z"], intro conjI)
      (rule init states f3 Zpos f5 f6 f7 f8 f9)+
qed

theorem compute_average_values_statistics_witness:
  "compute_average_values 2 1 \<lparr>J = 1, h = [1], mu = 1, pbc = True\<rparr> 0 = Inl InvalidTemperatureError
   \<and> (\<exists>c0 En Mg Z E EE M MM.
          SpinConfig1D_init 1 (IsingHamiltonian1D.pbc \<lparr>J = 1, h = [1], mu = 1, pbc = True\<rparr>) = Inr c0
        \<and> (\<forall>s<2 ^ nat 1. \<exists>c. set_int_config c0 (int s) = Inr c
                \<and> expectation_value \<lparr>J = 1, h = [1], mu = 1, pbc = True\<rparr> c = Inr (En s)
                \<and> magnetization c = Mg s)
        \<and> Z = (\<Sum>s<2 ^ nat 1. exp (- En s / 1)) \<and> 0 < Z
        \<and> E = (\<Sum>s<2 ^ nat 1. exp (- En s / 1) * En s) / Z
        \<and> EE = (\<Sum>s<2 ^ nat 1. exp (- En s / 1) * (En s)\<^sup>2) / Z
        \<and> M = (\<Sum>s<2 ^ nat 1. exp (- En s / 1) * Mg s) / Z
        \<and> MM = (\<Sum>s<2 ^ nat 1. exp (- En s / 1) * (Mg s)\<^sup>2) / Z
        \<and> compute_average_values 2 1 \<lparr>J = 1, h = [1], mu = 1, pbc = True\<rparr> 1 =
              Inr (E, M, (EE - E\<^sup>2) / 1\<^sup>2, (MM - M\<^sup>2) / 1))"
  (is "?cold \<and> ?warm")
proof -
  let ?ham = "\<lparr>J = 1, h = [1], mu = 1, pbc = True\<rparr>"
  note stats = compute_average_values_statistics [where budget = 2 and n = 1 and ham = ?ham]
  have freezing: "(0::real) \<le> 0"
    by simp
  have cold: ?cold
    using stats [where T = 0, THEN conjunct1, THEN mp, OF freezing] .
  have pre: "0 < (1::real) \<and> 1 \<le> (1::int) \<and> 1 \<le> int (length (h ?ham)) \<and> 2 ^ nat 1 \<le> (2::nat)"
    by simp
  have warm: ?warm
    using stats [where T = 1, THEN conjunct2, THEN mp, OF pre] .
  from cold warm show ?thesis ..
qed

end
